theory Spec2Isabelle
  imports Complex_Main
begin

section \<open>The SIRN data generator: a shallow embedding\<close>

text \<open>
  The development follows \<^verbatim>\<open>Visualization/sirn_data_generator.py\<close>, function
  \<^verbatim>\<open>generate_sirn_data\<close>. The same integration loop occurs a second time, without the
  stochastic branch, in \<^verbatim>\<open>run_demo\<close> of \<^verbatim>\<open>Visualization/dynamic_visualization.py\<close>.

  Numbers. Python integers are \<^typ>\<open>int\<close>. A Python float is modelled by the real number it
  denotes, and an arithmetic operation on floats by the exact operation on \<^typ>\<open>real\<close>:
  the rounding of IEEE doubles, the overflow to \<^verbatim>\<open>inf\<close> and \<^verbatim>\<open>nan\<close> are not part of the model,
  and the decimal literals of the rates are taken at their decimal value. Two things are
  modelled as the doubles they are: the literal \<^verbatim>\<open>1e-9\<close> of the drift test, and the
  conversion \<^verbatim>\<open>float(n)\<close> of an integer, which rounds to the nearest double and raises
  \<^verbatim>\<open>OverflowError\<close> beyond the largest double.

  Arguments. \<^verbatim>\<open>num_cities\<close>, \<^verbatim>\<open>max_time\<close>, \<^verbatim>\<open>time_step\<close>, \<^verbatim>\<open>initial_infected\<close> and the
  entries of \<^verbatim>\<open>custom_populations\<close> are integers, as the docstring says and as the command
  line parser produces them.

  Exceptions. A true division by zero raises \<^verbatim>\<open>ZeroDivisionError\<close>, a \<^verbatim>\<open>range\<close>
  with step zero raises \<^verbatim>\<open>ValueError\<close>, \<^verbatim>\<open>float\<close> of too large an integer raises
  \<^verbatim>\<open>OverflowError\<close>; they are values of the type \<open>error\<close>, and a function that may raise
  returns \<open>error + result\<close>.

  Randomness. The generator of \<^verbatim>\<open>np.random\<close> is a global state. It is modelled as the
  sequence of values that the successive calls \<^verbatim>\<open>np.random.normal(0, 0.05)\<close> will
  return (the next one at index 0), passed in and returned explicitly. Seeding
  (\<^verbatim>\<open>random_seed\<close>) chooses that sequence and is therefore not modelled separately.
  Writing the JSON file (\<^verbatim>\<open>output_file\<close>) does not change the returned data and is
  left out.
\<close>

datatype error = ZeroDivisionError | ValueError | OverflowError

type_synonym rng = "nat \<Rightarrow> real"

type_synonym sir = "real \<times> real \<times> real"

definition normal_draw :: "rng \<Rightarrow> real \<times> rng" where
  "normal_draw g = (g 0, \<lambda>k. g (Suc k))"

subsection \<open>One sub-step of the integration loop (lines 101--128)\<close>

text \<open>Lines 103--108: the rates of this sub-step; two draws in stochastic mode, beta first.\<close>

definition rates :: "bool \<Rightarrow> real \<Rightarrow> real \<Rightarrow> rng \<Rightarrow> (real \<times> real) \<times> rng" where
  "rates stochastic beta_base gamma_base g =
     (if stochastic then
        (let (n1, g1) = normal_draw g;
             beta = beta_base * (1 + n1);
             (n2, g2) = normal_draw g1;
             gamma = gamma_base * (1 + n2)
         in ((beta, gamma), g2))
      else ((beta_base, gamma_base), g))"

text \<open>Lines 110--116: the explicit Euler update. The division by \<open>N\<close> raises when \<open>N = 0\<close>.\<close>

definition euler :: "real \<Rightarrow> real \<Rightarrow> real \<Rightarrow> real \<Rightarrow> sir \<Rightarrow> error + sir" where
  "euler N beta gamma sub_dt s =
     (case s of (S, I, R) \<Rightarrow>
        if N = 0 then Inl ZeroDivisionError
        else
          (let dS = - beta * S * I / N * sub_dt;
               dI = (beta * S * I / N - gamma * I) * sub_dt;
               dR = gamma * I * sub_dt
           in Inr (S + dS, I + dI, R + dR)))"

text \<open>Lines 119--121: negative values are replaced by zero.\<close>

definition clamp :: "sir \<Rightarrow> sir" where
  "clamp s = (case s of (S, I, R) \<Rightarrow> (max 0 S, max 0 I, max 0 R))"

text \<open>Lines 124--128: rescaling to the total \<open>N\<close>; the division by \<open>total\<close> raises when
  \<open>total = 0\<close>. The literal \<^verbatim>\<open>1e-9\<close> denotes the double \<open>4835703278458517 / 2\<^sup>8\<^sup>2\<close>.\<close>

definition total_sir :: "sir \<Rightarrow> real" where
  "total_sir s = (case s of (S, I, R) \<Rightarrow> S + I + R)"

definition drifted :: "real \<Rightarrow> sir \<Rightarrow> bool" where
  "drifted N s = (\<bar>total_sir s - N\<bar> > 4835703278458517 / 2 ^ 82)"

definition renormalize :: "real \<Rightarrow> sir \<Rightarrow> error + sir" where
  "renormalize N s =
     (case s of (S, I, R) \<Rightarrow>
        if drifted N s then
          (if total_sir s = 0 then Inl ZeroDivisionError
           else Inr (S * N / total_sir s, I * N / total_sir s, R * N / total_sir s))
        else Inr (S, I, R))"

definition substep ::
  "real \<Rightarrow> real \<Rightarrow> real \<Rightarrow> real \<Rightarrow> bool \<Rightarrow> sir \<Rightarrow> rng \<Rightarrow> error + (sir \<times> rng)" where
  "substep N beta_base gamma_base sub_dt stochastic s g =
     (case rates stochastic beta_base gamma_base g of ((beta, gamma), g') \<Rightarrow>
        (case euler N beta gamma sub_dt s of
           Inl e \<Rightarrow> Inl e
         | Inr s1 \<Rightarrow>
             (case renormalize N (clamp s1) of
                Inl e \<Rightarrow> Inl e
              | Inr s2 \<Rightarrow> Inr (s2, g'))))"

text \<open>Line 101: \<^verbatim>\<open>for _ in range(num_substeps)\<close>; an exception ends the loop.\<close>

fun substeps ::
  "nat \<Rightarrow> real \<Rightarrow> real \<Rightarrow> real \<Rightarrow> real \<Rightarrow> bool \<Rightarrow> sir \<Rightarrow> rng \<Rightarrow> error + (sir \<times> rng)" where
  "substeps 0 N beta_base gamma_base sub_dt stochastic s g = Inr (s, g)"
| "substeps (Suc n) N beta_base gamma_base sub_dt stochastic s g =
     (case substep N beta_base gamma_base sub_dt stochastic s g of
        Inl e \<Rightarrow> Inl e
      | Inr (s', g') \<Rightarrow> substeps n N beta_base gamma_base sub_dt stochastic s' g')"

text \<open>Lines 96--101: the work for one time point \<open>t\<close>, from \<open>previous_t\<close>, in ten sub-steps.\<close>

definition integrate ::
  "real \<Rightarrow> real \<Rightarrow> real \<Rightarrow> bool \<Rightarrow> int \<Rightarrow> int \<Rightarrow> sir \<Rightarrow> rng \<Rightarrow> error + (sir \<times> rng)" where
  "integrate N beta_base gamma_base stochastic previous_t t s g =
     (let dt = t - previous_t;
          num_substeps = 10;
          sub_dt = real_of_int dt / real num_substeps
      in substeps num_substeps N beta_base gamma_base sub_dt stochastic s g)"

text \<open>A generator state for concrete runs: every draw is \<open>0\<close>.\<close>

definition silent :: rng where
  "silent = (\<lambda>k. 0)"

subsection \<open>Python's \<^verbatim>\<open>str\<close> on integers, \<^verbatim>\<open>range\<close> and \<^verbatim>\<open>list.index\<close>\<close>

definition digit_char :: "nat \<Rightarrow> char" where
  "digit_char d = char_of (48 + d)"

fun str_nat :: "nat \<Rightarrow> string" where
  "str_nat n = (if n < 10 then [digit_char n] else str_nat (n div 10) @ [digit_char (n mod 10)])"

declare str_nat.simps [simp del]

definition str_int :: "int \<Rightarrow> string" where
  "str_int i = (if i < 0 then CHR ''-'' # str_nat (nat (- i)) else str_nat (nat i))"

text \<open>The number of elements of \<^verbatim>\<open>range(start, stop, step)\<close>, as CPython computes it.\<close>

definition range_len :: "int \<Rightarrow> int \<Rightarrow> int \<Rightarrow> nat" where
  "range_len start stop step =
     (if 0 < step then (if start < stop then nat ((stop - 1 - start) div step + 1) else 0)
      else (if stop < start then nat ((start - 1 - stop) div (- step) + 1) else 0))"

definition range_list :: "int \<Rightarrow> int \<Rightarrow> int \<Rightarrow> int list" where
  "range_list start stop step = map (\<lambda>k. start + int k * step) [0..<range_len start stop step]"

definition py_range :: "int \<Rightarrow> int \<Rightarrow> int \<Rightarrow> error + int list" where
  "py_range start stop step = (if step = 0 then Inl ValueError else Inr (range_list start stop step))"

fun list_index :: "int list \<Rightarrow> int \<Rightarrow> error + nat" where
  "list_index [] x = Inl ValueError"
| "list_index (y # ys) x =
     (if y = x then Inr 0
      else (case list_index ys x of Inl e \<Rightarrow> Inl e | Inr k \<Rightarrow> Inr (Suc k)))"

subsection \<open>\<^verbatim>\<open>float\<close> of an integer\<close>

text \<open>
  CPython converts an integer to the nearest double, ties to the even significand of 53
  bits, and raises \<^verbatim>\<open>OverflowError\<close> when the rounded value reaches \<open>2\<^sup>1\<^sup>0\<^sup>2\<^sup>4\<close>. The result
  is the real number that the double denotes.
\<close>

fun bit_length :: "nat \<Rightarrow> nat" where
  "bit_length n = (if n = 0 then 0 else Suc (bit_length (n div 2)))"

declare bit_length.simps [simp del]

text \<open>\<open>a / 2\<^sup>k\<close> rounded to the nearest integer, ties to even.\<close>

definition round_shift :: "nat \<Rightarrow> nat \<Rightarrow> nat" where
  "round_shift a k =
     (let q = a div 2 ^ k;
          r = a mod 2 ^ k
      in if 2 ^ k < 2 * r \<or> (2 * r = 2 ^ k \<and> odd q) then q + 1 else q)"

definition py_float :: "int \<Rightarrow> error + real" where
  "py_float n =
     (let a = nat \<bar>n\<bar>;
          k = bit_length a - 53;
          m = round_shift a k * 2 ^ k
      in if 2 ^ 1024 \<le> m then Inl OverflowError
         else Inr (if n < 0 then - real m else real m))"

subsection \<open>The populations (lines 44--56)\<close>

definition default_population :: "int \<Rightarrow> int \<Rightarrow> int" where
  "default_population num_cities i =
     (if i < num_cities div 3 then 100
      else if i < 2 * num_cities div 3 then 200
      else 500)"

definition default_populations :: "int \<Rightarrow> int list" where
  "default_populations num_cities = map (default_population num_cities) (range_list 0 num_cities 1)"

function pad_populations :: "int list \<Rightarrow> int \<Rightarrow> int list" where
  "pad_populations custom_populations num_cities =
     (if int (length custom_populations) < num_cities
      then pad_populations (custom_populations @ [100]) num_cities
      else custom_populations)"
  by pat_completeness auto
termination
  by (relation "measure (\<lambda>(ps, n). nat (n - int (length ps)))") auto

declare pad_populations.simps [simp del]

subsection \<open>The time points of a city (lines 89--95)\<close>

definition time_points :: "int \<Rightarrow> int \<Rightarrow> error + int list" where
  "time_points time_step max_time =
     (case py_range time_step (max_time + 1) time_step of
        Inl e \<Rightarrow> Inl e
      | Inr tps \<Rightarrow>
          if max_time \<notin> set tps \<and> max_time mod time_step \<noteq> 0
          then Inr (tps @ [max_time])
          else Inr tps)"

definition previous_t :: "int list \<Rightarrow> int \<Rightarrow> error + int" where
  "previous_t tps t =
     (case list_index tps t of
        Inl e \<Rightarrow> Inl e
      | Inr k \<Rightarrow> Inr (if 0 < k then tps ! (k - 1) else 0))"

subsection \<open>The data of one city and of all cities (lines 59--131)\<close>

text \<open>
  The returned dictionary maps \<^verbatim>\<open>str(city)\<close> to a dictionary that maps \<^verbatim>\<open>str(t)\<close> to the
  list \<^verbatim>\<open>[S, I, R, N]\<close>. Assigning to a key that is present replaces its value.
\<close>

type_synonym series = "string \<rightharpoonup> real list"

type_synonym sirn_data = "string \<rightharpoonup> series"

text \<open>Lines 93--131: the loop over the time points; \<open>tps\<close> is the whole list, which line 95
  searches, and the second list holds the time points still to come.\<close>

fun time_loop ::
  "int list \<Rightarrow> int list \<Rightarrow> real \<Rightarrow> real \<Rightarrow> real \<Rightarrow> bool \<Rightarrow> sir \<Rightarrow> rng \<Rightarrow> series
     \<Rightarrow> error + (series \<times> rng)" where
  "time_loop tps [] N beta_base gamma_base stochastic s g recs = Inr (recs, g)"
| "time_loop tps (t # ts) N beta_base gamma_base stochastic s g recs =
     (case previous_t tps t of
        Inl e \<Rightarrow> Inl e
      | Inr p \<Rightarrow>
          (case integrate N beta_base gamma_base stochastic p t s g of
             Inl e \<Rightarrow> Inl e
           | Inr ((S, I, R), g') \<Rightarrow>
               time_loop tps ts N beta_base gamma_base stochastic (S, I, R) g'
                 (recs(str_int t \<mapsto> [S, I, R, N]))))"

text \<open>Lines 75--83.\<close>

definition city_rates :: "bool \<Rightarrow> int \<Rightarrow> real \<times> real" where
  "city_rates vary_params city =
     (if vary_params
      then (2 / 10 + 5 / 100 * real_of_int city, 1 / 10 + 1 / 100 * real_of_int city)
      else (3 / 10, 1 / 10))"

text \<open>Lines 64--72: the total \<open>N\<close>, the initial conditions, and their conversion by
  \<^verbatim>\<open>float\<close> for the record at time \<open>0\<close>.\<close>

definition initial_conditions :: "int \<Rightarrow> int \<Rightarrow> error + (real \<times> real \<times> real \<times> real)" where
  "initial_conditions population initial_infected =
     (let N = population + initial_infected;
          S0 = N - initial_infected;
          I0 = initial_infected;
          R0 = 0
      in case py_float S0 of
           Inl e \<Rightarrow> Inl e
         | Inr fS \<Rightarrow>
             (case py_float I0 of
                Inl e \<Rightarrow> Inl e
              | Inr fI \<Rightarrow>
                  (case py_float R0 of
                     Inl e \<Rightarrow> Inl e
                   | Inr fR \<Rightarrow>
                       (case py_float N of
                          Inl e \<Rightarrow> Inl e
                        | Inr fN \<Rightarrow> Inr (fS, fI, fR, fN)))))"

text \<open>Lines 60--131, the body of the loop over the cities. The list \<open>pops\<close> is the padded
  list of populations, so that the index \<open>city\<close> is in range. In the integration loop the
  integers \<open>S\<close>, \<open>I\<close>, \<open>R\<close> and \<open>N\<close> occur only as operands of a float operation, which
  converts them as \<^verbatim>\<open>float\<close> does; these are the conversions of line 72.\<close>

definition city_data ::
  "int list \<Rightarrow> int \<Rightarrow> int \<Rightarrow> int \<Rightarrow> bool \<Rightarrow> bool \<Rightarrow> int \<Rightarrow> rng \<Rightarrow> error + (series \<times> rng)" where
  "city_data pops max_time time_step initial_infected vary_params stochastic city g =
     (case initial_conditions (pops ! nat city) initial_infected of
        Inl e \<Rightarrow> Inl e
      | Inr (fS, fI, fR, fN) \<Rightarrow>
          (let recs = [''0'' \<mapsto> [fS, fI, fR, fN]]
           in case city_rates vary_params city of (beta_base, gamma_base) \<Rightarrow>
                (case time_points time_step max_time of
                   Inl e \<Rightarrow> Inl e
                 | Inr tps \<Rightarrow>
                     time_loop tps tps fN beta_base gamma_base stochastic (fS, fI, fR) g recs)))"

fun city_loop ::
  "int list \<Rightarrow> int \<Rightarrow> int \<Rightarrow> int \<Rightarrow> bool \<Rightarrow> bool \<Rightarrow> int list \<Rightarrow> sirn_data \<Rightarrow> rng
     \<Rightarrow> error + (sirn_data \<times> rng)" where
  "city_loop pops max_time time_step initial_infected vary_params stochastic [] data g =
     Inr (data, g)"
| "city_loop pops max_time time_step initial_infected vary_params stochastic (city # cs) data g =
     (case city_data pops max_time time_step initial_infected vary_params stochastic city g of
        Inl e \<Rightarrow> Inl e
      | Inr (recs, g') \<Rightarrow>
          city_loop pops max_time time_step initial_infected vary_params stochastic cs
            (data(str_int city \<mapsto> recs)) g')"

text \<open>The function itself; \<open>custom_populations = None\<close> selects the default populations.\<close>

definition generate_sirn_data ::
  "int \<Rightarrow> int \<Rightarrow> int \<Rightarrow> int \<Rightarrow> bool \<Rightarrow> int list option \<Rightarrow> bool \<Rightarrow> rng
     \<Rightarrow> error + (sirn_data \<times> rng)" where
  "generate_sirn_data num_cities max_time time_step initial_infected vary_params
      custom_populations stochastic g =
     (let pops = pad_populations
                   (case custom_populations of
                      None \<Rightarrow> default_populations num_cities
                    | Some ps \<Rightarrow> ps)
                   num_cities
      in city_loop pops max_time time_step initial_infected vary_params stochastic
           (range_list 0 num_cities 1) Map.empty g)"

text \<open>For the statement about the record at time \<open>0\<close>: the population that city \<open>city\<close> is
  given, which is the supplied one, \<open>100\<close> where the supplied list is too short, and the
  default one where no list is supplied. Lemma \<open>population_nth\<close> below shows that this is
  the entry that line 64 reads from the padded list.\<close>

definition population_of :: "int \<Rightarrow> int list option \<Rightarrow> int \<Rightarrow> int" where
  "population_of num_cities custom_populations city =
     (case custom_populations of
        None \<Rightarrow> default_population num_cities city
      | Some ps \<Rightarrow> if nat city < length ps then ps ! nat city else 100)"

text \<open>Reading a result: \<^verbatim>\<open>data[city][t]\<close> of the returned dictionary, if there is one.\<close>

definition record_at :: "error + (sirn_data \<times> rng) \<Rightarrow> string \<Rightarrow> string \<Rightarrow> real list option" where
  "record_at r city t =
     (case r of
        Inl e \<Rightarrow> None
      | Inr (data, g) \<Rightarrow> (case data city of None \<Rightarrow> None | Some recs \<Rightarrow> recs t))"

section \<open>Properties of the sub-step loop\<close>

lemmas substep_defs =
  substep_def rates_def euler_def clamp_def renormalize_def drifted_def total_sir_def
  normal_draw_def

lemma substep_zero_infected:
  assumes "N \<noteq> 0" "0 \<le> S" "0 \<le> R" "\<bar>S + R - N\<bar> \<le> 4835703278458517 / 2 ^ 82"
  shows "substep N beta gamma sub_dt False (S, 0, R) g = Inr ((S, 0, R), g)"
  using assms by (simp add: substep_defs)

lemma substeps_add:
  "substeps (k1 + k2) N beta gamma sub_dt stochastic s g =
     (case substeps k1 N beta gamma sub_dt stochastic s g of
        Inl e \<Rightarrow> Inl e
      | Inr (s', g') \<Rightarrow> substeps k2 N beta gamma sub_dt stochastic s' g')"
  by (induction k1 arbitrary: s g) (auto split: sum.splits)

lemma substeps_zero_infected:
  assumes "N \<noteq> 0" "0 \<le> S" "0 \<le> R" "\<bar>S + R - N\<bar> \<le> 4835703278458517 / 2 ^ 82"
  shows "substeps n N beta gamma sub_dt False (S, 0, R) g = Inr ((S, 0, R), g)"
  by (induction n) (simp_all add: substep_zero_infected [OF assms])

lemma substep_rng_free:
  "substep N beta gamma sub_dt False s g =
     (case substep N beta gamma sub_dt False s h of
        Inl e \<Rightarrow> Inl e
      | Inr (s', _) \<Rightarrow> Inr (s', g))"
  by (simp add: substep_def rates_def split: sum.splits)

lemma substeps_rng_free:
  "substeps n N beta gamma sub_dt False s g =
     (case substeps n N beta gamma sub_dt False s h of
        Inl e \<Rightarrow> Inl e
      | Inr (s', _) \<Rightarrow> Inr (s', g))"
proof (induction n arbitrary: s)
  case 0
  show ?case by simp
next
  case (Suc n)
  show ?case
  proof (cases "substep N beta gamma sub_dt False s h")
    case (Inl e)
    with substep_rng_free [of N beta gamma sub_dt s g h]
    have "substep N beta gamma sub_dt False s g = Inl e" by simp
    with Inl show ?thesis by simp
  next
    case (Inr r)
    obtain s1 h1 where r: "r = (s1, h1)" by (cases r) auto
    from substep_rng_free [of N beta gamma sub_dt s h g] Inr r
    have h1: "h1 = h" by (auto split: sum.splits)
    from substep_rng_free [of N beta gamma sub_dt s g h] Inr r
    have "substep N beta gamma sub_dt False s g = Inr (s1, g)" by simp
    with Inr r h1 Suc.IH [of s1] show ?thesis by simp
  qed
qed

lemma integrate_rng_free:
  "integrate N beta gamma False p t s g =
     (case integrate N beta gamma False p t s h of
        Inl e \<Rightarrow> Inl e
      | Inr (s', _) \<Rightarrow> Inr (s', g))"
  unfolding integrate_def Let_def by (rule substeps_rng_free)

lemma integrate_rng_same:
  assumes "integrate N beta gamma False p t s g = Inr (s', g')"
  shows "g' = g"
  using assms integrate_rng_free [of N beta gamma p t s g g] by (auto split: sum.splits)


section \<open>The reference scenario, by an invariant of the ten sub-steps\<close>

text \<open>With \<open>N = 101\<close>, \<open>beta = 0.3\<close>, \<open>gamma = 0.1\<close> and sub-steps of size \<open>1\<close>, a state with
  \<open>80 \<le> S \<le> 100\<close> and \<open>1 \<le> I \<le> 6\<close> is neither clamped nor rescaled; \<open>S\<close> falls by at most \<open>2\<close>
  and \<open>I\<close> grows by at most the factor \<open>6/5\<close>.\<close>

lemma scenario_substep:
  assumes "S + I + R = 101" "80 \<le> S" "S \<le> 100" "1 \<le> I" "I \<le> 6" "0 \<le> R"
  shows "\<exists>S' I' R'.
           substep 101 (3 / 10) (1 / 10) 1 False (S, I, R) g = Inr ((S', I', R'), g)
           \<and> S' + I' + R' = 101 \<and> S - 2 \<le> S' \<and> S' < S \<and> I < I' \<and> I' \<le> 6 / 5 * I \<and> 0 \<le> R'"
proof -
  define P where "P = S * I"
  define S' where "S' = S - 3 / 10 * P / 101"
  define I' where "I' = I + (3 / 10 * P / 101 - 1 / 10 * I)"
  define R' where "R' = R + 1 / 10 * I"
  have "S * I \<le> 100 * I" using assms by (intro mult_right_mono) simp_all
  then have P1: "P \<le> 100 * I" by (simp add: P_def)
  have "80 * I \<le> S * I" using assms by (intro mult_right_mono) simp_all
  then have P2: "80 * I \<le> P" by (simp add: P_def)
  have sum: "S' + I' + R' = 101" using assms(1) by (simp add: S'_def I'_def R'_def)
  have S1: "S - 2 \<le> S'" using P1 assms by (simp add: S'_def)
  have S2: "S' < S" using P2 assms by (simp add: S'_def)
  have I1: "I < I'" using P2 assms by (simp add: I'_def)
  have I2: "I' \<le> 6 / 5 * I" using P1 assms by (simp add: I'_def)
  have R1: "0 \<le> R'" using assms by (simp add: R'_def)
  have e: "euler 101 (3 / 10) (1 / 10) 1 (S, I, R) = Inr (S', I', R')"
    by (simp add: euler_def S'_def I'_def R'_def P_def)
  have pos: "0 \<le> S'" "0 \<le> I'" using S1 I1 assms by simp_all
  then have c: "clamp (S', I', R') = (S', I', R')" using R1 by (simp add: clamp_def)
  have n: "renormalize 101 (S', I', R') = Inr (S', I', R')"
    using sum by (simp add: renormalize_def drifted_def total_sir_def)
  have "substep 101 (3 / 10) (1 / 10) 1 False (S, I, R) g = Inr ((S', I', R'), g)"
    by (simp add: substep_def rates_def e c n)
  with sum S1 S2 I1 I2 R1 show ?thesis by blast
qed

lemma scenario_substeps:
  assumes "S + I + R = 101" "100 - 2 * real j \<le> S" "S \<le> 100" "1 \<le> I" "I \<le> (6 / 5) ^ j"
    "0 \<le> R" "j + n \<le> 10"
  shows "\<exists>S' I' R'.
           substeps n 101 (3 / 10) (1 / 10) 1 False (S, I, R) g = Inr ((S', I', R'), g)
           \<and> S' + I' + R' = 101 \<and> S' \<le> S \<and> I \<le> I' \<and> (0 < n \<longrightarrow> S' < S \<and> I < I')"
  using assms
proof (induction n arbitrary: j S I R)
  case 0
  then show ?case by simp
next
  case (Suc n)
  from Suc.prems(7) have j: "j \<le> 9" by simp
  then have "((6::real) / 5) ^ j \<le> (6 / 5) ^ 9" by (intro power_increasing) simp_all
  also have "\<dots> \<le> 6" by (simp add: power_divide)
  finally have I6: "I \<le> 6" using Suc.prems(5) by simp
  from j have "real j \<le> 9" by simp
  with Suc.prems(2) have S80: "80 \<le> S" by simp
  from scenario_substep [OF Suc.prems(1) S80 Suc.prems(3,4) I6 Suc.prems(6), of g]
  obtain S1 I1 R1 where
    st: "substep 101 (3 / 10) (1 / 10) 1 False (S, I, R) g = Inr ((S1, I1, R1), g)" and
    inv: "S1 + I1 + R1 = 101" "S - 2 \<le> S1" "S1 < S" "I < I1" "I1 \<le> 6 / 5 * I" "0 \<le> R1"
    by blast
  have a: "100 - 2 * real (Suc j) \<le> S1" using inv(2) Suc.prems(2) by simp
  have b: "S1 \<le> 100" using inv(3) Suc.prems(3) by simp
  have c: "1 \<le> I1" using inv(4) Suc.prems(4) by simp
  have d: "I1 \<le> (6 / 5) ^ Suc j" using inv(5) Suc.prems(5) by simp
  have e: "Suc j + n \<le> 10" using Suc.prems(7) by simp
  from Suc.IH [OF inv(1) a b c d inv(6) e] obtain S' I' R' where
    r: "substeps n 101 (3 / 10) (1 / 10) 1 False (S1, I1, R1) g = Inr ((S', I', R'), g)" and
    f: "S' + I' + R' = 101" "S' \<le> S1" "I1 \<le> I'"
    by blast
  have "substeps (Suc n) 101 (3 / 10) (1 / 10) 1 False (S, I, R) g = Inr ((S', I', R'), g)"
    by (simp add: st r)
  moreover have "S' < S" "I < I'" using f inv by simp_all
  ultimately show ?case using f(1) by auto
qed

lemma scenario_integrate:
  "\<exists>S I R.
     integrate 101 (3 / 10) (1 / 10) False 0 10 (100, 1, 0) g = Inr ((S, I, R), g)
     \<and> S < 100 \<and> 1 < I \<and> S + I + R = 101"
proof -
  have i: "integrate 101 (3 / 10) (1 / 10) False 0 10 (100, 1, 0) g =
             substeps 10 101 (3 / 10) (1 / 10) 1 False (100, 1, 0) g"
    by (simp add: integrate_def)
  have "\<exists>S' I' R'.
          substeps 10 101 (3 / 10) (1 / 10) 1 False (100, 1, 0) g = Inr ((S', I', R'), g)
          \<and> S' + I' + R' = 101 \<and> S' \<le> 100 \<and> 1 \<le> I' \<and> ((0::nat) < 10 \<longrightarrow> S' < 100 \<and> 1 < I')"
    by (rule scenario_substeps [of 100 1 0 0 10 g]) simp_all
  then obtain S I R where
    "substeps 10 101 (3 / 10) (1 / 10) 1 False (100, 1, 0) g = Inr ((S, I, R), g)"
    "S + I + R = 101" "S < 100" "1 < I"
    by auto
  then show ?thesis unfolding i by auto
qed

section \<open>Strings, ranges, populations and \<^verbatim>\<open>float\<close>\<close>

lemma digit_char_inj:
  assumes "a < 10" "b < 10" "digit_char a = digit_char b"
  shows "a = b"
proof -
  from assms(3) have "of_char (char_of (48 + a)) = (of_char (char_of (48 + b)) :: nat)"
    by (simp add: digit_char_def)
  then have "(48 + a) mod 256 = (48 + b) mod 256" by (simp only: of_char_of)
  with assms(1,2) show ?thesis by simp
qed

lemma str_nat_nonempty: "str_nat n \<noteq> []"
  by (subst str_nat.simps) simp

lemma str_nat_inj: "str_nat n = str_nat m \<Longrightarrow> n = m"
proof (induction n arbitrary: m rule: str_nat.induct)
  case (1 n)
  show ?case
  proof (cases "n < 10")
    case n: True
    show ?thesis
    proof (cases "m < 10")
      case True
      with n "1.prems" have "digit_char n = digit_char m"
        by (simp add: str_nat.simps [of n] str_nat.simps [of m])
      with n True show ?thesis by (rule digit_char_inj)
    next
      case False
      with n "1.prems" have "[digit_char n] = str_nat (m div 10) @ [digit_char (m mod 10)]"
        by (simp add: str_nat.simps [of n] str_nat.simps [of m])
      then have "str_nat (m div 10) = []" by simp
      then show ?thesis using str_nat_nonempty by blast
    qed
  next
    case n: False
    show ?thesis
    proof (cases "m < 10")
      case True
      with n "1.prems" have "str_nat (n div 10) @ [digit_char (n mod 10)] = [digit_char m]"
        by (simp add: str_nat.simps [of n] str_nat.simps [of m])
      then have "str_nat (n div 10) = []" by simp
      then show ?thesis using str_nat_nonempty by blast
    next
      case False
      with n "1.prems" have
        "str_nat (n div 10) @ [digit_char (n mod 10)] = str_nat (m div 10) @ [digit_char (m mod 10)]"
        by (simp add: str_nat.simps [of n] str_nat.simps [of m])
      then have a: "str_nat (n div 10) = str_nat (m div 10)"
        and b: "digit_char (n mod 10) = digit_char (m mod 10)"
        by simp_all
      from "1.IH" [OF n a] have "n div 10 = m div 10" .
      moreover have "n mod 10 = m mod 10" by (rule digit_char_inj [OF _ _ b]) simp_all
      ultimately show ?thesis by (metis div_mult_mod_eq)
    qed
  qed
qed

lemma str_int_inj_nonneg:
  assumes "0 \<le> a" "0 \<le> b" "str_int a = str_int b"
  shows "a = b"
proof -
  from assms have "str_nat (nat a) = str_nat (nat b)" by (simp add: str_int_def)
  then have "nat a = nat b" by (rule str_nat_inj)
  with assms(1,2) show ?thesis by simp
qed

lemma str_nat_hd_digit: "\<exists>d<10. hd (str_nat n) = digit_char d"
proof (induction n rule: str_nat.induct)
  case (1 n)
  show ?case
  proof (cases "n < 10")
    case True
    then show ?thesis by (auto simp: str_nat.simps [of n])
  next
    case False
    with "1.IH" str_nat_nonempty [of "n div 10"] show ?thesis
      by (simp add: str_nat.simps [of n])
  qed
qed

lemma str_int_zero: "str_int 0 = ''0''"
  by code_simp

lemma digit_char_not_minus: "d < 10 \<Longrightarrow> digit_char d \<noteq> CHR ''-''"
proof
  assume d: "d < 10" and "digit_char d = CHR ''-''"
  then have "of_char (char_of (48 + d)) = (of_char (CHR ''-'') :: nat)"
    by (simp add: digit_char_def)
  then have "(48 + d) mod 256 = 45" by (simp only: of_char_of) simp
  with d show False by simp
qed

lemma str_int_eq_zero:
  assumes "str_int t = ''0''"
  shows "t = 0"
proof (cases "t < 0")
  case True
  with assms have "CHR ''-'' # str_nat (nat (- t)) = ''0''" by (simp add: str_int_def)
  then show ?thesis by simp
next
  case False
  then have "0 \<le> t" by simp
  from str_int_inj_nonneg [OF this _ assms [folded str_int_zero]] show ?thesis by simp
qed

lemma range_len_unit: "range_len 0 n 1 = nat n"
  by (simp add: range_len_def)

lemma range_list_unit: "range_list 0 n 1 = map int [0..<nat n]"
  by (simp add: range_list_def range_len_unit)

lemma range_list_unit_distinct: "distinct (range_list 0 n 1)"
  by (simp add: range_list_unit distinct_map inj_on_def)

lemma range_list_unit_mem:
  assumes "0 \<le> c" "c < n"
  shows "c \<in> set (range_list 0 n 1)"
proof -
  from assms have "nat c < nat n" by simp
  then have "int (nat c) \<in> int ` {0..<nat n}" by (intro imageI) simp
  with assms(1) show ?thesis by (simp add: range_list_unit)
qed

lemma range_list_unit_nonneg: "c \<in> set (range_list 0 n 1) \<Longrightarrow> 0 \<le> c"
  by (auto simp: range_list_unit)

lemma range_list_nonzero: "step \<noteq> 0 \<Longrightarrow> 0 \<notin> set (range_list step stop step)"
proof
  assume s: "step \<noteq> 0" and "0 \<in> set (range_list step stop step)"
  then obtain k :: nat where "step + int k * step = 0" by (auto simp: range_list_def)
  then have "(1 + int k) * step = 0" by (simp add: algebra_simps)
  with s show False by simp
qed

lemma time_points_nonzero:
  assumes "time_points time_step max_time = Inr tps"
  shows "0 \<notin> set tps"
proof -
  from assms have s: "time_step \<noteq> 0"
    by (auto simp: time_points_def py_range_def split: if_splits)
  let ?r = "range_list time_step (max_time + 1) time_step"
  from range_list_nonzero [OF s] have r: "0 \<notin> set ?r" .
  from assms s have "tps = ?r \<or> (tps = ?r @ [max_time] \<and> max_time mod time_step \<noteq> 0)"
    by (auto simp: time_points_def py_range_def split: if_splits)
  then show ?thesis
  proof
    assume "tps = ?r"
    with r show ?thesis by simp
  next
    assume a: "tps = ?r @ [max_time] \<and> max_time mod time_step \<noteq> 0"
    then have "max_time \<noteq> 0" by auto
    with a r show ?thesis by auto
  qed
qed

lemma pad_populations_eq:
  "pad_populations ps n = ps @ replicate (nat (n - int (length ps))) 100"
proof (induction ps n rule: pad_populations.induct)
  case (1 ps n)
  show ?case
  proof (cases "int (length ps) < n")
    case True
    then have "nat (n - int (length ps)) = Suc (nat (n - int (length (ps @ [100]))))"
      by simp
    with True "1.IH" show ?thesis
      by (subst pad_populations.simps) (simp del: replicate_Suc add: replicate_Suc [symmetric])
  next
    case False
    then show ?thesis by (subst pad_populations.simps) simp
  qed
qed

lemma pad_populations_nth:
  assumes "0 \<le> c" "c < n"
  shows "pad_populations ps n ! nat c = (if nat c < length ps then ps ! nat c else 100)"
proof (cases "nat c < length ps")
  case True
  then show ?thesis by (simp add: pad_populations_eq nth_append)
next
  case False
  with assms have "nat c - length ps < nat (n - int (length ps))" by linarith
  with False show ?thesis by (simp add: pad_populations_eq nth_append)
qed

lemma default_populations_length: "int (length (default_populations n)) = max 0 n"
  by (simp add: default_populations_def range_list_unit)

lemma default_populations_nth:
  assumes "0 \<le> c" "c < n"
  shows "default_populations n ! nat c = default_population n c"
  using assms by (simp add: default_populations_def range_list_unit)

lemma population_nth:
  assumes "0 \<le> c" "c < n"
  shows "pad_populations (case cp of None \<Rightarrow> default_populations n | Some ps \<Rightarrow> ps) n ! nat c
           = population_of n cp c"
proof (cases cp)
  case None
  from assms have "nat c < length (default_populations n)"
    using default_populations_length [of n] by linarith
  with None assms show ?thesis
    by (simp add: pad_populations_nth population_of_def default_populations_nth)
next
  case (Some ps)
  with assms show ?thesis by (simp add: pad_populations_nth population_of_def)
qed

lemma bit_length_le: "a < 2 ^ j \<Longrightarrow> bit_length a \<le> j"
proof (induction j arbitrary: a)
  case 0
  then show ?case by (simp add: bit_length.simps)
next
  case (Suc j)
  show ?case
  proof (cases "a = 0")
    case True
    then show ?thesis by (simp add: bit_length.simps)
  next
    case False
    from Suc.prems have "a div 2 < 2 ^ j" by simp
    from Suc.IH [OF this] False show ?thesis by (subst bit_length.simps) simp
  qed
qed

lemma bit_length_bound: "bit_length 9007199254740992 = 54"
  by (simp add: bit_length.simps)

lemma round_shift_0: "round_shift a 0 = a"
  by (simp add: round_shift_def)

lemma py_float_nat_exact:
  assumes "a \<le> 9007199254740992"
  shows "round_shift a (bit_length a - 53) * 2 ^ (bit_length a - 53) = a"
proof (cases "a = 9007199254740992")
  case True
  then show ?thesis by (simp add: bit_length_bound round_shift_def)
next
  case False
  with assms have "a < 2 ^ 53" by simp
  then have "bit_length a \<le> 53" by (rule bit_length_le)
  then have "bit_length a - 53 = 0" by simp
  then show ?thesis by (simp only: round_shift_0) simp
qed

lemma py_float_exact:
  assumes "\<bar>n\<bar> \<le> 9007199254740992"
  shows "py_float n = Inr (real_of_int n)"
proof -
  define a where "a = nat \<bar>n\<bar>"
  from assms have a: "a \<le> 9007199254740992" by (simp add: a_def)
  have m: "round_shift a (bit_length a - 53) * 2 ^ (bit_length a - 53) = a"
    using a by (rule py_float_nat_exact)
  have "py_float n =
          (if 2 ^ 1024 \<le> a then Inl OverflowError
           else Inr (if n < 0 then - real a else real a))"
    by (simp only: py_float_def Let_def a_def [symmetric] m)
  moreover have "\<not> 2 ^ 1024 \<le> a" using a by simp
  moreover have "(if n < 0 then - real a else real a) = real_of_int n"
    by (simp add: a_def)
  ultimately show ?thesis by simp
qed

text \<open>An integer of absolute value \<open>2\<^sup>1\<^sup>0\<^sup>2\<^sup>4\<close> or more has no double.\<close>

lemma bit_length_less: "a < 2 ^ bit_length a"
proof (induction a rule: bit_length.induct)
  case (1 n)
  show ?case
  proof (cases "n = 0")
    case True
    then show ?thesis by simp
  next
    case False
    from "1.IH" [OF False] have "n div 2 + 1 \<le> 2 ^ bit_length (n div 2)" by simp
    then have "2 * (n div 2 + 1) \<le> 2 * 2 ^ bit_length (n div 2)" by simp
    moreover have "n < 2 * (n div 2 + 1)" by simp
    ultimately have "n < 2 * 2 ^ bit_length (n div 2)" by simp
    with False show ?thesis by (subst bit_length.simps) simp
  qed
qed

lemma bit_length_lower: "0 < a \<Longrightarrow> 2 ^ (bit_length a - 1) \<le> a"
proof (induction a rule: bit_length.induct)
  case (1 n)
  from "1.prems" have n: "n \<noteq> 0" by simp
  have b: "bit_length n = Suc (bit_length (n div 2))"
    using n by (subst bit_length.simps) simp
  show ?case
  proof (cases "n div 2 = 0")
    case True
    then have "bit_length (n div 2) = 0" by (simp add: bit_length.simps)
    with b "1.prems" show ?thesis by simp
  next
    case False
    then have pos: "0 < n div 2" by simp
    from "1.IH" [OF n pos] have "2 ^ (bit_length (n div 2) - 1) \<le> n div 2" .
    moreover have "0 < bit_length (n div 2)"
      using False by (subst bit_length.simps) simp
    then have "(2::nat) ^ bit_length (n div 2) = 2 * 2 ^ (bit_length (n div 2) - 1)"
      by (cases "bit_length (n div 2)") simp_all
    ultimately have "(2::nat) ^ bit_length (n div 2) \<le> 2 * (n div 2)" by simp
    also have "\<dots> \<le> n" by simp
    finally show ?thesis by (simp add: b)
  qed
qed

lemma round_shift_ge: "a div 2 ^ k \<le> round_shift a k"
  by (simp add: round_shift_def Let_def)

lemma py_float_overflow:
  assumes "2 ^ 1024 \<le> \<bar>n\<bar>"
  shows "py_float n = Inl OverflowError"
proof -
  define a where "a = nat \<bar>n\<bar>"
  define L where "L = bit_length a"
  from assms have a: "2 ^ 1024 \<le> a" by (simp add: a_def le_nat_iff)
  then have pos: "0 < a" by (meson less_le_trans zero_less_numeral zero_less_power)
  from a bit_length_less [of a] have "(2::nat) ^ 1024 < 2 ^ L" by (simp add: L_def)
  then have L: "1024 < L" by (rule power_less_imp_less_exp [of 2, rotated]) simp
  define k where "k = L - 53"
  from L have Lk: "L - 1 = 52 + k" by (simp add: k_def)
  from bit_length_lower [OF pos] have "2 ^ (L - 1) \<le> a" by (simp only: L_def)
  then have "2 ^ (52 + k) \<le> a" by (simp only: Lk)
  then have "2 ^ 52 * 2 ^ k \<le> a" by (simp add: power_add)
  then have "2 ^ 52 \<le> a div 2 ^ k" by (simp add: less_eq_div_iff_mult_less_eq)
  with round_shift_ge [of a k] have "2 ^ 52 \<le> round_shift a k" by simp
  then have A: "2 ^ 52 * 2 ^ k \<le> round_shift a k * 2 ^ k" by (rule mult_le_mono1)
  have B: "(2::nat) ^ 1024 \<le> 2 ^ 52 * 2 ^ k"
  proof -
    from L have "1024 \<le> 52 + k" by (simp add: k_def)
    then have "(2::nat) ^ 1024 \<le> 2 ^ (52 + k)" by (intro power_increasing) simp_all
    then show ?thesis by (simp only: power_add)
  qed
  from B A have "2 ^ 1024 \<le> round_shift a k * 2 ^ k" by (rule order_trans)
  then show ?thesis
    by (simp only: py_float_def Let_def a_def [symmetric] L_def [symmetric] k_def [symmetric]) simp
qed

lemma py_float_zero: "py_float 0 = Inr 0"
  by (simp add: py_float_exact)

lemma py_float_rounds: "py_float 9007199254740993 = Inr 9007199254740992"
proof -
  have "bit_length 9007199254740993 = 54" by (simp add: bit_length.simps)
  then show ?thesis by (simp add: py_float_def Let_def round_shift_def)
qed

lemma initial_conditions_Inr:
  assumes "initial_conditions P i = Inr (fS, fI, fR, fN)"
  shows "py_float P = Inr fS \<and> py_float i = Inr fI \<and> fR = 0 \<and> py_float (P + i) = Inr fN"
  using assms by (auto simp: initial_conditions_def Let_def py_float_zero split: sum.splits)

lemma str_int_one: "str_int 1 = ''1''" by code_simp

lemma str_int_ten: "str_int 10 = ''10''" by code_simp

section \<open>Properties of the loops over time points and cities\<close>

lemma time_loop_rng_free:
  "time_loop tps ts N beta gamma False s g recs =
     (case time_loop tps ts N beta gamma False s h recs of
        Inl e \<Rightarrow> Inl e
      | Inr (recs', _) \<Rightarrow> Inr (recs', g))"
proof (induction ts arbitrary: s recs)
  case Nil
  show ?case by simp
next
  case (Cons t ts)
  show ?case
  proof (cases "previous_t tps t")
    case (Inl e)
    then show ?thesis by simp
  next
    case p: (Inr p)
    show ?thesis
    proof (cases "integrate N beta gamma False p t s h")
      case (Inl e)
      with integrate_rng_free [of N beta gamma p t s g h]
      have "integrate N beta gamma False p t s g = Inl e" by simp
      with Inl p show ?thesis by simp
    next
      case (Inr r)
      obtain S I R h1 where r: "r = ((S, I, R), h1)" by (cases r) auto
      from Inr r have h1: "h1 = h" by (auto dest: integrate_rng_same)
      from integrate_rng_free [of N beta gamma p t s g h] Inr r
      have "integrate N beta gamma False p t s g = Inr ((S, I, R), g)" by simp
      then show ?thesis
        using Inr r h1 p by (simp del: fun_upd_apply add: Cons.IH [of "(S, I, R)"])
    qed
  qed
qed

lemma city_data_rng_free:
  "city_data pops max_time time_step initial_infected vary_params False city g =
     (case city_data pops max_time time_step initial_infected vary_params False city h of
        Inl e \<Rightarrow> Inl e
      | Inr (recs, _) \<Rightarrow> Inr (recs, g))"
proof (cases "initial_conditions (pops ! nat city) initial_infected")
  case (Inl e)
  then show ?thesis by (simp add: city_data_def)
next
  case c: (Inr c)
  obtain fS fI fR fN where cv: "c = (fS, fI, fR, fN)" by (cases c) auto
  obtain beta gamma where bg: "city_rates vary_params city = (beta, gamma)"
    by (cases "city_rates vary_params city") auto
  show ?thesis
  proof (cases "time_points time_step max_time")
    case (Inl e)
    then show ?thesis by (simp add: city_data_def c cv bg)
  next
    case (Inr tps)
    then show ?thesis
      using time_loop_rng_free [of tps tps fN beta gamma "(fS, fI, fR)" g
          "[''0'' \<mapsto> [fS, fI, fR, fN]]" h]
      by (simp add: city_data_def c cv bg del: fun_upd_apply)
  qed
qed

lemma city_data_rng_same:
  assumes "city_data pops max_time time_step initial_infected vary_params False city g = Inr (recs, g')"
  shows "g' = g"
  using assms
    city_data_rng_free [of pops max_time time_step initial_infected vary_params city g g]
  by (auto split: sum.splits)

lemma city_loop_rng_free:
  "city_loop pops max_time time_step initial_infected vary_params False cs data g =
     (case city_loop pops max_time time_step initial_infected vary_params False cs data h of
        Inl e \<Rightarrow> Inl e
      | Inr (data', _) \<Rightarrow> Inr (data', g))"
proof (induction cs arbitrary: data)
  case Nil
  show ?case by simp
next
  case (Cons c cs)
  show ?case
  proof (cases "city_data pops max_time time_step initial_infected vary_params False c h")
    case (Inl e)
    with city_data_rng_free [of pops max_time time_step initial_infected vary_params c g h]
    have "city_data pops max_time time_step initial_infected vary_params False c g = Inl e"
      by simp
    with Inl show ?thesis by simp
  next
    case (Inr r)
    obtain recs h1 where r: "r = (recs, h1)" by (cases r) auto
    from Inr r have h1: "h1 = h" by (auto dest: city_data_rng_same)
    from city_data_rng_free [of pops max_time time_step initial_infected vary_params c g h] Inr r
    have "city_data pops max_time time_step initial_infected vary_params False c g = Inr (recs, g)"
      by simp
    then show ?thesis
      using Inr r h1 by (simp del: fun_upd_apply add: Cons.IH)
  qed
qed

lemma generate_rng_free:
  "generate_sirn_data num_cities max_time time_step initial_infected vary_params
      custom_populations False g =
     (case generate_sirn_data num_cities max_time time_step initial_infected vary_params
             custom_populations False h of
        Inl e \<Rightarrow> Inl e
      | Inr (data, _) \<Rightarrow> Inr (data, g))"
  unfolding generate_sirn_data_def Let_def by (rule city_loop_rng_free)

lemma time_loop_fourth:
  assumes "time_loop tps ts N beta gamma st s g recs = Inr (recs', g')"
    and "\<And>k v. recs k = Some v \<Longrightarrow> length v = 4 \<and> v ! 3 = N"
    and "recs' k = Some v"
  shows "length v = 4 \<and> v ! 3 = N"
  using assms
proof (induction ts arbitrary: s g recs)
  case Nil
  then show ?case by simp
next
  case (Cons t ts)
  from Cons.prems(1) obtain p S I R g1 where
    "previous_t tps t = Inr p" "integrate N beta gamma st p t s g = Inr ((S, I, R), g1)" and
    rest: "time_loop tps ts N beta gamma st (S, I, R) g1 (recs(str_int t \<mapsto> [S, I, R, N]))
             = Inr (recs', g')"
    by (auto simp del: fun_upd_apply split: sum.splits)
  have "length w = 4 \<and> w ! 3 = N" if "(recs(str_int t \<mapsto> [S, I, R, N])) j = Some w" for j w
    using that Cons.prems(2) [of j w] by (auto split: if_splits)
  from Cons.IH [OF rest this Cons.prems(3)] show ?case .
qed

lemma time_loop_dom:
  assumes "time_loop tps ts N beta gamma st s g recs = Inr (recs', g')" "recs k \<noteq> None"
  shows "recs' k \<noteq> None"
  using assms
proof (induction ts arbitrary: s g recs)
  case Nil
  then show ?case by simp
next
  case (Cons t ts)
  from Cons.prems(1) obtain p S I R g1 where
    "previous_t tps t = Inr p" "integrate N beta gamma st p t s g = Inr ((S, I, R), g1)" and
    rest: "time_loop tps ts N beta gamma st (S, I, R) g1 (recs(str_int t \<mapsto> [S, I, R, N]))
             = Inr (recs', g')"
    by (auto simp del: fun_upd_apply split: sum.splits)
  have "(recs(str_int t \<mapsto> [S, I, R, N])) k \<noteq> None" using Cons.prems(2) by simp
  from Cons.IH [OF rest this] show ?case .
qed

lemma time_loop_keep:
  assumes "time_loop tps ts N beta gamma st s g recs = Inr (recs', g')"
    "k \<notin> str_int ` set ts"
  shows "recs' k = recs k"
  using assms
proof (induction ts arbitrary: s g recs)
  case Nil
  then show ?case by simp
next
  case (Cons t ts)
  from Cons.prems(1) obtain p S I R g1 where
    "previous_t tps t = Inr p" "integrate N beta gamma st p t s g = Inr ((S, I, R), g1)" and
    rest: "time_loop tps ts N beta gamma st (S, I, R) g1 (recs(str_int t \<mapsto> [S, I, R, N]))
             = Inr (recs', g')"
    by (auto simp del: fun_upd_apply split: sum.splits)
  from Cons.prems(2) have k: "k \<noteq> str_int t" "k \<notin> str_int ` set ts" by auto
  from Cons.IH [OF rest k(2)] k(1) show ?case by simp
qed

lemma city_data_unfold:
  assumes "city_data pops max_time time_step initial_infected vary_params st city g = Inr (recs, g')"
  shows "\<exists>fS fI fR fN beta gamma tps.
           initial_conditions (pops ! nat city) initial_infected = Inr (fS, fI, fR, fN)
           \<and> city_rates vary_params city = (beta, gamma)
           \<and> time_points time_step max_time = Inr tps
           \<and> time_loop tps tps fN beta gamma st (fS, fI, fR) g [''0'' \<mapsto> [fS, fI, fR, fN]]
               = Inr (recs, g')"
  using assms
  by (auto simp: city_data_def Let_def simp del: fun_upd_apply split: sum.splits prod.splits)

lemma city_data_fourth:
  assumes "city_data pops max_time time_step initial_infected vary_params st city g = Inr (recs, g')"
  shows "\<exists>v0. recs ''0'' = Some v0
           \<and> (\<forall>k v. recs k = Some v \<longrightarrow> length v = 4 \<and> length v0 = 4 \<and> v ! 3 = v0 ! 3)"
proof -
  from city_data_unfold [OF assms] obtain fS fI fR fN beta gamma tps where
    tl: "time_loop tps tps fN beta gamma st (fS, fI, fR) g [''0'' \<mapsto> [fS, fI, fR, fN]]
           = Inr (recs, g')"
    by blast
  have init: "length v = 4 \<and> v ! 3 = fN" if "[''0'' \<mapsto> [fS, fI, fR, fN]] k = Some v" for k v
    using that by (auto split: if_splits)
  have all: "length v = 4 \<and> v ! 3 = fN" if "recs k = Some v" for k v
    using time_loop_fourth [OF tl init that] .
  have "[''0'' \<mapsto> [fS, fI, fR, fN]] ''0'' \<noteq> None" by simp
  from time_loop_dom [OF tl this] obtain v0 where v0: "recs ''0'' = Some v0" by auto
  with all [OF v0] all show ?thesis by auto
qed

lemma city_loop_fourth:
  assumes "city_loop pops max_time time_step initial_infected vary_params st cs data g
             = Inr (data', g')"
    and "\<And>c recs. data c = Some recs \<Longrightarrow>
           \<exists>v0. recs ''0'' = Some v0
             \<and> (\<forall>k v. recs k = Some v \<longrightarrow> length v = 4 \<and> length v0 = 4 \<and> v ! 3 = v0 ! 3)"
    and "data' c = Some recs"
  shows "\<exists>v0. recs ''0'' = Some v0
           \<and> (\<forall>k v. recs k = Some v \<longrightarrow> length v = 4 \<and> length v0 = 4 \<and> v ! 3 = v0 ! 3)"
  using assms
proof (induction cs arbitrary: data g)
  case Nil
  then show ?case by simp
next
  case (Cons c0 cs)
  from Cons.prems(1) obtain r1 g1 where
    cd: "city_data pops max_time time_step initial_infected vary_params st c0 g = Inr (r1, g1)" and
    rest: "city_loop pops max_time time_step initial_infected vary_params st cs
             (data(str_int c0 \<mapsto> r1)) g1 = Inr (data', g')"
    by (auto simp del: fun_upd_apply split: sum.splits)
  have "\<exists>v0. r ''0'' = Some v0
          \<and> (\<forall>k v. r k = Some v \<longrightarrow> length v = 4 \<and> length v0 = 4 \<and> v ! 3 = v0 ! 3)"
    if "(data(str_int c0 \<mapsto> r1)) j = Some r" for j r
  proof (cases "j = str_int c0")
    case True
    with that have "r = r1" by simp
    with city_data_fourth [OF cd] show ?thesis by simp
  next
    case False
    with that have "data j = Some r" by simp
    then show ?thesis by (rule Cons.prems(2))
  qed
  from Cons.IH [OF rest this Cons.prems(3)] show ?case .
qed

lemma city_data_initial:
  assumes "city_data pops max_time time_step initial_infected vary_params st city g = Inr (recs, g')"
  shows "\<exists>fS fI fN.
           py_float (pops ! nat city) = Inr fS
           \<and> py_float initial_infected = Inr fI
           \<and> py_float (pops ! nat city + initial_infected) = Inr fN
           \<and> recs ''0'' = Some [fS, fI, 0, fN]"
proof -
  from city_data_unfold [OF assms] obtain fS fI fR fN beta gamma tps where
    ic: "initial_conditions (pops ! nat city) initial_infected = Inr (fS, fI, fR, fN)" and
    tp: "time_points time_step max_time = Inr tps" and
    tl: "time_loop tps tps fN beta gamma st (fS, fI, fR) g [''0'' \<mapsto> [fS, fI, fR, fN]]
           = Inr (recs, g')"
    by blast
  from time_points_nonzero [OF tp] have "''0'' \<notin> str_int ` set tps"
    by (auto dest: str_int_eq_zero [OF sym])
  from time_loop_keep [OF tl this] have "recs ''0'' = Some [fS, fI, fR, fN]" by simp
  with initial_conditions_Inr [OF ic] show ?thesis by auto
qed

lemma city_loop_keep:
  assumes "city_loop pops max_time time_step initial_infected vary_params st cs data g
             = Inr (data', g')"
    "k \<notin> str_int ` set cs"
  shows "data' k = data k"
  using assms
proof (induction cs arbitrary: data g)
  case Nil
  then show ?case by simp
next
  case (Cons c0 cs)
  from Cons.prems(1) obtain r1 g1 where
    rest: "city_loop pops max_time time_step initial_infected vary_params st cs
             (data(str_int c0 \<mapsto> r1)) g1 = Inr (data', g')"
    by (auto simp del: fun_upd_apply split: sum.splits)
  from Cons.prems(2) have k: "k \<noteq> str_int c0" "k \<notin> str_int ` set cs" by auto
  from Cons.IH [OF rest k(2)] k(1) show ?case by simp
qed

lemma city_loop_lookup:
  assumes "city_loop pops max_time time_step initial_infected vary_params st cs data g
             = Inr (data', g')"
    "distinct cs" "\<forall>c \<in> set cs. 0 \<le> c" "city \<in> set cs"
  shows "\<exists>recs g1 g2.
           city_data pops max_time time_step initial_infected vary_params st city g1 = Inr (recs, g2)
           \<and> data' (str_int city) = Some recs"
  using assms
proof (induction cs arbitrary: data g)
  case Nil
  then show ?case by simp
next
  case (Cons c0 cs)
  from Cons.prems(1) obtain r1 g1 where
    cd: "city_data pops max_time time_step initial_infected vary_params st c0 g = Inr (r1, g1)" and
    rest: "city_loop pops max_time time_step initial_infected vary_params st cs
             (data(str_int c0 \<mapsto> r1)) g1 = Inr (data', g')"
    by (auto simp del: fun_upd_apply split: sum.splits)
  show ?case
  proof (cases "city = c0")
    case True
    have "str_int c0 \<notin> str_int ` set cs"
    proof
      assume "str_int c0 \<in> str_int ` set cs"
      then obtain c where c: "c \<in> set cs" "str_int c0 = str_int c" by auto
      with Cons.prems(3) have "c0 = c" by (intro str_int_inj_nonneg) simp_all
      with c(1) Cons.prems(2) show False by simp
    qed
    from city_loop_keep [OF rest this] have "data' (str_int c0) = Some r1" by simp
    with cd True show ?thesis by blast
  next
    case False
    with Cons.prems have "distinct cs" "\<forall>c \<in> set cs. 0 \<le> c" "city \<in> set cs" by simp_all
    from Cons.IH [OF rest this] show ?thesis .
  qed
qed

lemmas generate_defs =
  generate_sirn_data_def city_data_def city_rates_def time_points_def py_range_def
  range_list_def range_len_def previous_t_def pad_populations.simps
  default_populations_def default_population_def population_of_def
  initial_conditions_def py_float_exact

section \<open>The claims about the integrator\<close>

text \<open>
  C4 (determinism, non-stochastic). With \<open>stochastic = False\<close> the result does not depend on
  the state of the random generator: for any two generator states, the sub-step loop, the
  integration to one time point, and the whole of \<^verbatim>\<open>generate_sirn_data\<close> return the same
  compartments and data, or raise the same exception.
\<close>

theorem determinism:
  "map_sum id fst (substeps n N beta gamma sub_dt False s g1) =
     map_sum id fst (substeps n N beta gamma sub_dt False s g2)
   \<and> map_sum id fst (integrate N beta gamma False t0 t1 s g1) =
       map_sum id fst (integrate N beta gamma False t0 t1 s g2)
   \<and> map_sum id fst
        (generate_sirn_data num_cities max_time time_step initial_infected vary_params
           custom_populations False g1) =
       map_sum id fst
        (generate_sirn_data num_cities max_time time_step initial_infected vary_params
           custom_populations False g2)"
proof (intro conjI)
  show "map_sum id fst (substeps n N beta gamma sub_dt False s g1) =
          map_sum id fst (substeps n N beta gamma sub_dt False s g2)"
    by (subst substeps_rng_free [of n N beta gamma sub_dt s g1 g2]) (auto split: sum.splits)
  show "map_sum id fst (integrate N beta gamma False t0 t1 s g1) =
          map_sum id fst (integrate N beta gamma False t0 t1 s g2)"
    by (subst integrate_rng_free [of N beta gamma t0 t1 s g1 g2]) (auto split: sum.splits)
  show "map_sum id fst
          (generate_sirn_data num_cities max_time time_step initial_infected vary_params
             custom_populations False g1) =
        map_sum id fst
          (generate_sirn_data num_cities max_time time_step initial_infected vary_params
             custom_populations False g2)"
    by (subst generate_rng_free [of num_cities max_time time_step initial_infected vary_params
          custom_populations g1 g2]) (auto split: sum.splits)
qed

text \<open>
  C6 (sub-stepping consistency). In non-stochastic mode, \<open>k1\<close> sub-steps from \<open>t0\<close> to \<open>t1\<close>
  followed by \<open>k2\<close> sub-steps from \<open>t1\<close> to \<open>t2\<close>, of one and the same size, give exactly
  the result of \<open>k1 + k2\<close> sub-steps from \<open>t0\<close> to \<open>t2\<close>, whose size is then that same size;
  an exception of the first part is the exception of the whole.
\<close>

theorem substepping_consistency:
  assumes "0 < k1" "0 < k2" "(t1 - t0) / real k1 = sub_dt" "(t2 - t1) / real k2 = sub_dt"
  shows "(t2 - t0) / real (k1 + k2) = sub_dt
         \<and> substeps (k1 + k2) N beta gamma ((t2 - t0) / real (k1 + k2)) False s g =
             (case substeps k1 N beta gamma ((t1 - t0) / real k1) False s g of
                Inl e \<Rightarrow> Inl e
              | Inr (s', g') \<Rightarrow> substeps k2 N beta gamma ((t2 - t1) / real k2) False s' g')"
proof -
  from assms have "t1 - t0 = sub_dt * real k1" "t2 - t1 = sub_dt * real k2"
    by (auto simp: field_simps)
  then have "t2 - t0 = sub_dt * real (k1 + k2)" by (simp add: algebra_simps)
  then have d: "(t2 - t0) / real (k1 + k2) = sub_dt" using assms(1) by simp
  show ?thesis
    unfolding d assms(3,4) by (simp add: substeps_add)
qed

theorem substepping_consistency_witness:
  "substeps (1 + 1) 4 1 1 ((2 - 0) / real (1 + 1)) False (1, 1, 1) silent =
     Inr ((11 / 12, 1 / 12, 3), silent)"
proof -
  have h: "0 < (1::nat)" "((1::real) - 0) / real (1::nat) = 1" "((2::real) - 1) / real (1::nat) = 1"
    by simp_all
  from substepping_consistency [OF h(1) h(1) h(2) h(3), of 4 1 1 "(1, 1, 1)" silent]
  show ?thesis by (simp add: substep_defs)
qed

text \<open>
  C7 (reference scenario). From \<open>S = 100\<close>, \<open>I = 1\<close>, \<open>R = 0\<close>, \<open>N = 101\<close> with \<open>beta = 0.3\<close>,
  \<open>gamma = 0.1\<close>, the integration from \<open>t = 0\<close> to \<open>t = 10\<close> in ten sub-steps, non-stochastic,
  returns \<open>S < 100\<close>, \<open>I > 1\<close> and \<open>S + I + R = 101\<close> within \<open>10\<^sup>-\<^sup>6\<close>. It is the record that
  \<^verbatim>\<open>generate_sirn_data\<close> stores at time \<open>10\<close> for one city of population \<open>100\<close>, one
  initial infected, fixed parameters, \<^verbatim>\<open>max_time = time_step = 10\<close>.
\<close>

theorem reference_scenario:
  "\<exists>S I R.
     integrate 101 (3 / 10) (1 / 10) False 0 10 (100, 1, 0) g = Inr ((S, I, R), g)
     \<and> S < 100 \<and> 1 < I \<and> \<bar>S + I + R - 101\<bar> \<le> 1 / 10 ^ 6
     \<and> generate_sirn_data 1 10 10 1 False (Some [100]) False g =
           Inr ([''0'' \<mapsto> [''0'' \<mapsto> [100, 1, 0, 101], ''10'' \<mapsto> [S, I, R, 101]]], g)"
proof -
  from scenario_integrate [of g] obtain S I R where
    i: "integrate 101 (3 / 10) (1 / 10) False 0 10 (100, 1, 0) g = Inr ((S, I, R), g)" and
    p: "S < 100" "1 < I" "S + I + R = 101"
    by blast
  have "generate_sirn_data 1 10 10 1 False (Some [100]) False g =
          Inr ([''0'' \<mapsto> [''0'' \<mapsto> [100, 1, 0, 101], ''10'' \<mapsto> [S, I, R, 101]]], g)"
    by (simp add: generate_defs str_int_zero str_int_ten Let_def i)
  with i p show ?thesis by simp
qed

section \<open>The claims about the generated data\<close>

text \<open>
  C9 (\<open>N\<close> is never modified). In the data that \<^verbatim>\<open>generate_sirn_data\<close> returns, every city
  has a record at time \<open>0\<close>, every record of the city has four components, and the fourth
  component of every record of the city is the fourth component of its record at time \<open>0\<close>.
\<close>

theorem population_total_unchanged:
  assumes "generate_sirn_data num_cities max_time time_step initial_infected vary_params
             custom_populations stochastic g = Inr (data, g')"
    and "data city = Some recs" and "recs t = Some v"
  shows "\<exists>v0. recs ''0'' = Some v0 \<and> length v0 = 4 \<and> length v = 4 \<and> v ! 3 = v0 ! 3"
proof -
  have "\<exists>v0. r ''0'' = Some v0
          \<and> (\<forall>k v. r k = Some v \<longrightarrow> length v = 4 \<and> length v0 = 4 \<and> v ! 3 = v0 ! 3)"
    if "(Map.empty :: sirn_data) c = Some r" for c r
    using that by simp
  from city_loop_fourth [OF assms(1) [unfolded generate_sirn_data_def Let_def] this assms(2)]
  show ?thesis using assms(3) by blast
qed

theorem population_total_unchanged_witness:
  "generate_sirn_data 1 1 1 0 False (Some [3]) False silent =
     Inr ([''0'' \<mapsto> [''0'' \<mapsto> [3, 0, 0, 3], ''1'' \<mapsto> [3, 0, 0, 3]]], silent)
   \<and> [3, 0, 0, 3 :: real] ! 3 = [3, 0, 0, 3] ! 3"
proof -
  have e: "generate_sirn_data 1 1 1 0 False (Some [3]) False silent =
     Inr ([''0'' \<mapsto> [''0'' \<mapsto> [3, 0, 0, 3], ''1'' \<mapsto> [3, 0, 0, 3]]], silent)"
    by (simp add: generate_defs integrate_def substeps_zero_infected str_int_zero str_int_one Let_def)
  have d: "[''0'' \<mapsto> [''0'' \<mapsto> [3, 0, 0, 3 :: real], ''1'' \<mapsto> [3, 0, 0, 3]]] ''0''
             = Some [''0'' \<mapsto> [3, 0, 0, 3], ''1'' \<mapsto> [3, 0, 0, 3]]"
    by simp
  have r: "[''0'' \<mapsto> [3, 0, 0, 3 :: real], ''1'' \<mapsto> [3, 0, 0, 3]] ''1'' = Some [3, 0, 0, 3]"
    by simp
  from population_total_unchanged [OF e d r] e show ?thesis by simp
qed

text \<open>
  C10, as stated, fails: with population \<open>2\<^sup>5\<^sup>3\<close> and one initial infected, \<open>N = 2\<^sup>5\<^sup>3 + 1\<close> is
  not a double, and the record at time \<open>0\<close> holds \<open>float(N) = 2\<^sup>5\<^sup>3\<close> as its fourth component,
  which is the population and not the population plus the initial infected.
\<close>

theorem initial_record_counterexample:
  "record_at (generate_sirn_data 1 0 1 1 False (Some [9007199254740992]) False silent) ''0'' ''0''
     = Some [9007199254740992, 1, 0, 9007199254740992]
   \<and> population_of 1 (Some [9007199254740992]) 0 = 9007199254740992
   \<and> real_of_int (population_of 1 (Some [9007199254740992]) 0 + 1) \<noteq> 9007199254740992"
proof -
  have "generate_sirn_data 1 0 1 1 False (Some [9007199254740992]) False silent =
          Inr ([''0'' \<mapsto> [''0'' \<mapsto> [9007199254740992, 1, 0, 9007199254740992]]], silent)"
    by (simp add: generate_defs py_float_rounds str_int_zero Let_def)
  then show ?thesis by (simp add: record_at_def population_of_def)
qed

text \<open>
  C10, amended (initial record). For every city \<open>0 \<le> city < num_cities\<close>, the returned data
  has at \<^verbatim>\<open>str(city)\<close>, time \<^verbatim>\<open>"0"\<close>, the record \<open>[float(P), float(i), 0, float(P + i)]\<close>,
  where \<open>P\<close> is the population of the city (supplied, or default), \<open>i\<close> is
  \<^verbatim>\<open>initial_infected\<close> and \<^verbatim>\<open>float\<close> rounds an integer to the nearest double; each of the
  three is the integer itself when its absolute value is at most \<open>2\<^sup>5\<^sup>3\<close>.
\<close>

theorem initial_record:
  assumes "generate_sirn_data num_cities max_time time_step initial_infected vary_params
             custom_populations stochastic g = Inr (data, g')"
    and "0 \<le> city" and "city < num_cities"
  shows "\<exists>recs fP fi fN.
           data (str_int city) = Some recs
           \<and> py_float (population_of num_cities custom_populations city) = Inr fP
           \<and> py_float initial_infected = Inr fi
           \<and> py_float (population_of num_cities custom_populations city + initial_infected)
               = Inr fN
           \<and> recs ''0'' = Some [fP, fi, 0, fN]
           \<and> (\<bar>population_of num_cities custom_populations city\<bar> \<le> 2 ^ 53
                \<longrightarrow> fP = real_of_int (population_of num_cities custom_populations city))
           \<and> (\<bar>initial_infected\<bar> \<le> 2 ^ 53 \<longrightarrow> fi = real_of_int initial_infected)
           \<and> (\<bar>population_of num_cities custom_populations city + initial_infected\<bar> \<le> 2 ^ 53
                \<longrightarrow> fN = real_of_int (population_of num_cities custom_populations city
                                        + initial_infected))"
proof -
  let ?pops = "pad_populations
                 (case custom_populations of None \<Rightarrow> default_populations num_cities
                  | Some ps \<Rightarrow> ps) num_cities"
  let ?P = "population_of num_cities custom_populations city"
  from assms(1) have cl:
    "city_loop ?pops max_time time_step initial_infected vary_params stochastic
       (range_list 0 num_cities 1) Map.empty g = Inr (data, g')"
    by (simp add: generate_sirn_data_def Let_def)
  have "\<forall>c \<in> set (range_list 0 num_cities 1). 0 \<le> c"
    by (auto dest: range_list_unit_nonneg)
  from city_loop_lookup [OF cl range_list_unit_distinct this
      range_list_unit_mem [OF assms(2,3)]]
  obtain recs g1 g2 where
    cd: "city_data ?pops max_time time_step initial_infected vary_params stochastic city g1
           = Inr (recs, g2)" and
    d: "data (str_int city) = Some recs"
    by blast
  have p: "?pops ! nat city = ?P"
    by (rule population_nth [OF assms(2,3)])
  from city_data_initial [OF cd] obtain fP fi fN where
    f: "py_float ?P = Inr fP" "py_float initial_infected = Inr fi"
       "py_float (?P + initial_infected) = Inr fN"
       "recs ''0'' = Some [fP, fi, 0, fN]"
    unfolding p by blast
  have e: "py_float n = Inr x \<Longrightarrow> \<bar>n\<bar> \<le> 2 ^ 53 \<Longrightarrow> x = real_of_int n" for n x
    using py_float_exact [of n] by simp
  from d f e [OF f(1)] e [OF f(2)] e [OF f(3)] show ?thesis by blast
qed

theorem initial_record_witness:
  "generate_sirn_data 2 0 1 2 True (Some [3]) False silent =
     Inr ([''0'' \<mapsto> [''0'' \<mapsto> [3, 2, 0, 5]], ''1'' \<mapsto> [''0'' \<mapsto> [100, 2, 0, 102]]], silent)
   \<and> population_of 2 (Some [3]) 1 = 100
   \<and> (\<exists>recs. [''0'' \<mapsto> [''0'' \<mapsto> [3, 2, 0, 5 :: real]], ''1'' \<mapsto> [''0'' \<mapsto> [100, 2, 0, 102]]]
                 (str_int 1) = Some recs
              \<and> recs ''0'' = Some [100, 2, 0, 102])"
proof -
  have e: "generate_sirn_data 2 0 1 2 True (Some [3]) False silent =
     Inr ([''0'' \<mapsto> [''0'' \<mapsto> [3, 2, 0, 5]], ''1'' \<mapsto> [''0'' \<mapsto> [100, 2, 0, 102]]], silent)"
    by (simp add: generate_defs str_int_zero str_int_one Let_def numeral_2_eq_2)
  have p: "population_of 2 (Some [3]) 1 = 100" by (simp add: population_of_def)
  have h: "(0::int) \<le> 1" "(1::int) < 2" by simp_all
  from initial_record [OF e h] obtain recs fP fi fN where
    r: "[''0'' \<mapsto> [''0'' \<mapsto> [3, 2, 0, 5 :: real]], ''1'' \<mapsto> [''0'' \<mapsto> [100, 2, 0, 102]]]
          (str_int 1) = Some recs"
       "recs ''0'' = Some [fP, fi, 0, fN]"
       "\<bar>population_of 2 (Some [3]) 1\<bar> \<le> 2 ^ 53
          \<longrightarrow> fP = real_of_int (population_of 2 (Some [3]) 1)"
       "\<bar>2 :: int\<bar> \<le> 2 ^ 53 \<longrightarrow> fi = real_of_int 2"
       "\<bar>population_of 2 (Some [3]) 1 + 2\<bar> \<le> 2 ^ 53
          \<longrightarrow> fN = real_of_int (population_of 2 (Some [3]) 1 + 2)"
    by blast
  from r(3-5) have "fP = 100" "fi = 2" "fN = 102" by (simp_all add: p)
  with r(1,2) e p show ?thesis by blast
qed

end
